theory Spec2Isabelle
  imports Main "HOL-Library.Sublist" "HOL-Library.Char_ord" "HOL-Library.List_Lexorder"
begin

section \<open>Strings\<close>

text \<open>
  Python strings are modelled as \<open>string\<close> (lists of 8-bit characters); text is taken to
  be ASCII. The helpers below are the \<open>str\<close> methods used by
  \<open>Lib/gftools/push/trafficjam.py\<close>.
\<close>

text \<open>\<open>sep.join(xs)\<close>.\<close>

fun join :: "string \<Rightarrow> string list \<Rightarrow> string" where
  "join sep [] = []"
| "join sep [x] = x"
| "join sep (x # y # ys) = x @ sep @ join sep (y # ys)"

text \<open>\<open>s.split(c)\<close> for a one-character separator: always at least one piece.\<close>

fun split_on :: "char \<Rightarrow> string \<Rightarrow> string list" where
  "split_on c [] = [[]]"
| "split_on c (x # xs) =
     (if x = c then [] # split_on c xs
      else (case split_on c xs of [] \<Rightarrow> [[x]] | y # ys \<Rightarrow> (x # y) # ys))"

text \<open>\<open>s.rfind(c)\<close>: the last index of \<open>c\<close>; \<open>None\<close> stands for Python's \<open>-1\<close>.\<close>

definition rfind :: "char \<Rightarrow> string \<Rightarrow> nat option" where
  "rfind c s =
     (if c \<in> set s then Some (length s - 1 - length (takeWhile (\<lambda>x. x \<noteq> c) (rev s)))
      else None)"

section \<open>Pure POSIX paths\<close>

text \<open>
  A \<open>pathlib\<close> path is represented by its \<open>parts\<close> tuple: the segments, preceded by the
  root (\<open>/\<close> or \<open>//\<close>) when the path is absolute. Two paths are equal iff their parts are,
  and paths are ordered as their parts are (lexicographically, segment by segment).
\<close>

type_synonym path = "string list"

definition is_root :: "string \<Rightarrow> bool" where
  "is_root r = (r = ''/'' \<or> r = ''//'')"

text \<open>\<open>Path(s)\<close>: empty and \<open>.\<close> segments are dropped; exactly two leading slashes are kept.\<close>

definition Path :: "string \<Rightarrow> path" where
  "Path s =
     (let slashes = length (takeWhile (\<lambda>c. c = CHR ''/'') s);
          rel = dropWhile (\<lambda>c. c = CHR ''/'') s;
          segs = filter (\<lambda>x. x \<noteq> [] \<and> x \<noteq> ''.'') (split_on CHR ''/'' rel)
      in if slashes = 0 then segs
         else (if slashes = 2 then ''//'' else ''/'') # segs)"

text \<open>\<open>str(p)\<close> and \<open>p.as_posix()\<close>.\<close>

definition as_posix :: "path \<Rightarrow> string" where
  "as_posix p =
     (case p of [] \<Rightarrow> ''.''
      | r # rest \<Rightarrow> if is_root r then r @ join ''/'' rest else join ''/'' p)"

text \<open>\<open>p.parent\<close>: the parent of the empty path and of a root is the path itself.\<close>

definition parent :: "path \<Rightarrow> path" where
  "parent p =
     (case p of [] \<Rightarrow> []
      | [r] \<Rightarrow> if is_root r then [r] else []
      | _ \<Rightarrow> butlast p)"

text \<open>\<open>p.name\<close>: the last segment, empty for the empty path and for a root.\<close>

definition name :: "path \<Rightarrow> string" where
  "name p =
     (case p of [] \<Rightarrow> []
      | [r] \<Rightarrow> if is_root r then [] else r
      | _ \<Rightarrow> last p)"

text \<open>\<open>p.suffix\<close>: from the last dot of the name, unless that dot is first or last.\<close>

definition suffix_of :: "path \<Rightarrow> string" where
  "suffix_of p =
     (case rfind CHR ''.'' (name p) of None \<Rightarrow> []
      | Some i \<Rightarrow> if 0 < i \<and> i < length (name p) - 1 then drop i (name p) else [])"

section \<open>Enumerations and the push item\<close>

datatype PushCategory =
  NEW | UPGRADE | OTHER | DESIGNER_PROFILE | AXIS_REGISTRY | KNOWLEDGE | METADATA
  | SAMPLE_TEXTS | BLOCKED | DELETED

datatype PushStatus = PR_GF | IN_DEV | IN_SANDBOX | LIVE

datatype PushList = TO_SANDBOX | TO_PRODUCTION | PL_BLOCKED

definition FAMILY_FILE_SUFFIXES :: "string set" where
  "FAMILY_FILE_SUFFIXES = {''.ttf'', ''.otf'', ''.html'', ''.pb'', ''.txt'', ''.yaml'', ''.png''}"

text \<open>
  The dataclass \<open>PushItem\<close> (the field \<open>item_id\<close> is \<open>id_\<close> in the source).
  \<open>from_server_file\<close> can store \<open>None\<close> as category and status,
  so both are optional here.
\<close>

record PushItem =
  path :: path
  category :: "PushCategory option"
  status :: "PushStatus option"
  url :: string
  push_list :: "PushList option"
  merged :: "bool option"
  item_id :: "string option"

text \<open>
  What the module reads from outside: the file system (\<open>Path.is_dir\<close>, and
  \<open>PushItem.exists\<close>, which is \<open>google_path_to_repo_path(path).exists()\<close>) and the
  path mapping \<open>repo_path_to_google_path\<close> of \<open>gftools.push.utils\<close>.
\<close>

record env =
  is_dir :: "path \<Rightarrow> bool"
  item_exists :: "path \<Rightarrow> bool"
  repo_path_to_google_path :: "path \<Rightarrow> path"

section \<open>PushItems.add\<close>

text \<open>\<open>any(d in p.parts for d in ds)\<close>.\<close>

definition any_in_parts :: "string list \<Rightarrow> path \<Rightarrow> bool" where
  "any_in_parts ds p = (\<exists>d \<in> set ds. d \<in> set p)"

text \<open>
  The \<open>if\<close>/\<open>elif\<close> chain that opens \<open>add\<close> (lines 292-317): the new value of
  \<open>item.path\<close>, or \<open>None\<close> where \<open>add\<close> returns at once.
\<close>

definition normalize_path :: "env \<Rightarrow> path \<Rightarrow> path option" where
  "normalize_path e p =
     (if ''article'' \<in> set p \<or> ''static'' \<in> set p then
        (if is_dir e p then Some (parent p) else Some (parent (parent p)))
      else if any_in_parts [''ofl'', ''ufl'', ''apache'', ''designers''] p
              \<and> suffix_of p \<in> FAMILY_FILE_SUFFIXES then Some (parent p)
      else if any_in_parts [''lang'', ''axisregistry''] p \<and> suffix_of p = ''.textproto''
        then Some (repo_path_to_google_path e p)
      else if any_in_parts [''lang'', ''axisregistry''] p \<and> suffix_of p \<noteq> ''.textproto''
        then None
      else Some p)"

text \<open>
  \<open>next((idx for idx, i in enumerate(xs) if P i), None)\<close>, which is also the index at
  which a \<open>for\<close> loop over \<open>enumerate(xs)\<close> breaks on \<open>P\<close>.
\<close>

fun first_index :: "('a \<Rightarrow> bool) \<Rightarrow> 'a list \<Rightarrow> nat option" where
  "first_index P [] = None"
| "first_index P (x # xs) =
     (if P x then Some 0 else map_option Suc (first_index P xs))"

text \<open>\<open>xs.pop(idx)\<close> for an index in range, as a new list.\<close>

definition pop :: "nat \<Rightarrow> 'a list \<Rightarrow> 'a list" where
  "pop idx xs = take idx xs @ drop (Suc idx) xs"

text \<open>
  The test of the second scan (line 333), which reads the member \<open>i\<close> on both sides of
  \<open>in\<close>: \<open>str(i.path.parent) in str(i.path) or i.path == item.path\<close>.
\<close>

definition pop_test :: "path \<Rightarrow> PushItem \<Rightarrow> bool" where
  "pop_test p i = (sublist (as_posix (parent (path i))) (as_posix (path i)) \<or> path i = p)"

text \<open>
  \<open>add\<close> (lines 289-339) returns the registry after the call. The source mutates the
  list and the incoming item in place; the model takes the item as a value, which agrees
  with the source as long as the item is not already an object of the list. \<open>if to_pop:\<close>
  is false for \<open>None\<close> and for index 0.
\<close>

definition add :: "env \<Rightarrow> PushItem list \<Rightarrow> PushItem \<Rightarrow> PushItem list" where
  "add e self item =
     (case normalize_path e (path item) of
        None \<Rightarrow> self
      | Some p \<Rightarrow>
          if length p = 1 then self
          else
            let self1 = (case first_index (\<lambda>i. path i = p) self of
                           None \<Rightarrow> self
                         | Some existing_idx \<Rightarrow> pop existing_idx self);
                to_pop = first_index (pop_test p) self1;
                self2 = (case to_pop of
                           None \<Rightarrow> self1
                         | Some idx \<Rightarrow> if idx \<noteq> 0 then pop idx self1 else self1)
            in self2 @ [item\<lparr>path := p\<rparr>])"

text \<open>Feeding a sequence of items through \<open>add\<close>, one call after the other.\<close>

definition add_all :: "env \<Rightarrow> PushItem list \<Rightarrow> PushItem list \<Rightarrow> PushItem list" where
  "add_all e self items = foldl (add e) self items"

text \<open>\<open>PushItem(path, category, status, url)\<close> with the defaults of the remaining fields.\<close>

definition mk_item :: "path \<Rightarrow> PushCategory option \<Rightarrow> PushStatus option \<Rightarrow> string \<Rightarrow> PushItem" where
  "mk_item p c s u =
     \<lparr>path = p, category = c, status = s, url = u, push_list = None, merged = None,
      item_id = None\<rparr>"

section \<open>Union and difference\<close>

text \<open>
  \<open>__add__\<close> (lines 259-265): a deep copy of \<open>self\<close>, then every member of \<open>other\<close>
  through \<open>add\<close>.
\<close>

definition dunder_add :: "env \<Rightarrow> PushItem list \<Rightarrow> PushItem list \<Rightarrow> PushItem list" where
  "dunder_add e self other = foldl (add e) self other"


section \<open>The manifest: to_server_file\<close>

definition PushCategory_all :: "PushCategory list" where
  "PushCategory_all =
     [NEW, UPGRADE, OTHER, DESIGNER_PROFILE, AXIS_REGISTRY, KNOWLEDGE, METADATA,
      SAMPLE_TEXTS, BLOCKED, DELETED]"

text \<open>The \<open>value\<close> of each member of the enumeration.\<close>

fun value_of :: "PushCategory \<Rightarrow> string" where
  "value_of NEW = ''New''"
| "value_of UPGRADE = ''Upgrade''"
| "value_of OTHER = ''Other''"
| "value_of DESIGNER_PROFILE = ''Designer profile''"
| "value_of AXIS_REGISTRY = ''Axis Registry''"
| "value_of KNOWLEDGE = ''Knowledge''"
| "value_of METADATA = ''Metadata / Description / License''"
| "value_of SAMPLE_TEXTS = ''Sample texts''"
| "value_of BLOCKED = ''Blocked''"
| "value_of DELETED = ''Deleted''"

definition PushCategory_values :: "string list" where
  "PushCategory_values = map value_of PushCategory_all"

definition from_string :: "string \<Rightarrow> PushCategory option" where
  "from_string s = find (\<lambda>i. value_of i = s) PushCategory_all"

datatype py_error = AttributeError | ValueError | ExternalError

text \<open>
  A bin is a Python \<open>set\<close> of items, which hash and compare by path: adding an item whose
  path is already there changes nothing. The list keeps the order of insertion; the
  source only reads a bin through \<open>sorted\<close>.
\<close>

definition set_add :: "PushItem \<Rightarrow> PushItem list \<Rightarrow> PushItem list" where
  "set_add item b = (if \<exists>x \<in> set b. path x = path item then b else b @ [item])"

text \<open>
  The first loop (lines 356-360). \<open>item.category.value\<close> raises \<open>AttributeError\<close> on an
  item whose category is \<open>None\<close>.
\<close>

fun fill_bins ::
  "(string \<rightharpoonup> PushItem list) \<Rightarrow> PushItem list \<Rightarrow> py_error + (string \<rightharpoonup> PushItem list)" where
  "fill_bins bins [] = Inr bins"
| "fill_bins bins (item # items) =
     (if category item = Some BLOCKED then fill_bins bins items
      else case category item of
        None \<Rightarrow> Inl AttributeError
      | Some c \<Rightarrow>
          fill_bins
            (bins(value_of c \<mapsto> set_add item (case bins (value_of c) of None \<Rightarrow> [] | Some b \<Rightarrow> b)))
            items)"

text \<open>The line of one member (lines 368-374).\<close>

definition item_line :: "env \<Rightarrow> PushItem \<Rightarrow> string" where
  "item_line e item =
     (if item_exists e (path item) then as_posix (path item) @ '' # '' @ url item
      else if url item \<noteq> [] then ''# Deleted: '' @ as_posix (path item) @ '' # '' @ url item
      else ''# Deleted: '' @ as_posix (path item))"

text \<open>
  What one tag appends to \<open>res\<close> (lines 364-375). The members of a bin have distinct
  paths, so \<open>sorted\<close> by path gives one result whatever order the set is read in.
\<close>

definition tag_lines :: "env \<Rightarrow> (string \<rightharpoonup> PushItem list) \<Rightarrow> string \<Rightarrow> string list" where
  "tag_lines e bins tag =
     (case bins tag of
        None \<Rightarrow> []
      | Some b \<Rightarrow> (''# '' @ tag) # map (item_line e) (sort_key path b) @ [[]])"

text \<open>\<open>to_server_file\<close> (lines 353-380): the text written to the document.\<close>

definition to_server_file :: "env \<Rightarrow> PushItem list \<Rightarrow> py_error + string" where
  "to_server_file e self =
     (case fill_bins Map.empty self of
        Inl err \<Rightarrow> Inl err
      | Inr bins \<Rightarrow> Inr (join ''\<newline>'' (concat (map (tag_lines e bins) PushCategory_values))))"

section \<open>The manifest: from_server_file\<close>

definition startswith :: "string \<Rightarrow> string \<Rightarrow> bool" where
  "startswith s pre = prefix pre s"

text \<open>\<open>s.replace(old, new)\<close> for a non-empty \<open>old\<close>: every occurrence, left to right.\<close>

fun replace :: "string \<Rightarrow> string \<Rightarrow> string \<Rightarrow> string" where
  "replace old new [] = []"
| "replace old new (c # cs) =
     (if old \<noteq> [] \<and> prefix old (c # cs)
      then new @ replace old new (drop (length old - 1) cs)
      else c # replace old new cs)"

text \<open>The ASCII characters for which \<open>str.isspace\<close> holds, and \<open>s.strip()\<close>.\<close>

definition is_space :: "char \<Rightarrow> bool" where
  "is_space c =
     (c \<in> {CHR '' '', CHR 0x09, CHR 0x0A, CHR 0x0B, CHR 0x0C, CHR 0x0D,
            CHR 0x1C, CHR 0x1D, CHR 0x1E, CHR 0x1F})"

definition strip :: "string \<Rightarrow> string" where
  "strip s = rev (dropWhile is_space (rev (dropWhile is_space s)))"

text \<open>\<open>PushItem(path, category, status, url, push_list)\<close>.\<close>

definition mk_item5 ::
  "path \<Rightarrow> PushCategory option \<Rightarrow> PushStatus option \<Rightarrow> string \<Rightarrow> PushList option \<Rightarrow> PushItem" where
  "mk_item5 p c s u pl =
     \<lparr>path = p, category = c, status = s, url = u, push_list = pl, merged = None,
      item_id = None\<rparr>"

text \<open>
  The loop over the lines (lines 396-429), with the loop variables \<open>category\<close>,
  \<open>deleted\<close> and \<open>results\<close> as arguments. \<open>path, url = line.split("#")\<close> raises
  \<open>ValueError\<close> unless the split gives exactly two pieces.
\<close>

fun read_lines ::
  "env \<Rightarrow> PushStatus option \<Rightarrow> PushList option \<Rightarrow> string list \<Rightarrow> PushCategory option \<Rightarrow> bool
     \<Rightarrow> PushItem list \<Rightarrow> py_error + PushItem list" where
  "read_lines e st pl [] cat deleted results = Inr results"
| "read_lines e st pl (line # lines) cat deleted results =
     (if line = [] then read_lines e st pl lines cat deleted results
      else
        let is_del = startswith line ''# Deleted'';
            line1 = (if is_del then replace ''# Deleted: '' [] line else line);
            deleted1 = (if is_del then True else deleted)
        in
          if startswith line1 ''#''
          then read_lines e st pl lines (from_string (strip (drop 1 line1))) False results
          else if CHR ''#'' \<in> set line1 then
            (case split_on CHR ''#'' line1 of
               [p, u] \<Rightarrow>
                 read_lines e st pl lines cat False
                   (add e results
                      (mk_item5 (Path (strip p)) (if \<not> deleted1 then cat else Some DELETED) st
                         (strip u) pl))
             | _ \<Rightarrow> Inl ValueError)
          else
            read_lines e st pl lines cat False
              (add e results
                 (mk_item5 (Path (strip line1)) (if \<not> deleted1 then cat else Some DELETED) st
                    [] pl)))"

text \<open>\<open>from_server_file\<close> (lines 382-430) on the text of the document.\<close>

definition from_server_file ::
  "env \<Rightarrow> string \<Rightarrow> PushStatus option \<Rightarrow> PushList option \<Rightarrow> py_error + PushItem list" where
  "from_server_file e doc st pl =
     read_lines e st pl (split_on CHR ''\<newline>'' doc) (Some OTHER) False []"

section \<open>List progression\<close>

text \<open>
  \<open>LIST_OPTION_IDS\<close>: the three members of the enumeration. Their values are the option
  ids of the board configuration, taken to be pairwise different, so that the members
  are.
\<close>

datatype LIST_OPTION_IDS = OPT_TO_SANDBOX | OPT_TO_PRODUCTION | OPT_BLOCKED

text \<open>
  The mutation sent to the board: \<open>GOOGLE_FONTS_UPDATE_ITEM\<close> filled with the item's id
  and the option of the list field (the project and field ids are constants).
\<close>

datatype mutation = UpdateListField "string option" LIST_OPTION_IDS

text \<open>
  The world outside the item: the mutations sent so far and the lines printed. The board
  answers a mutation, given the ones before it, with \<open>None\<close> (the call returns) or with
  the exception that the client raises.
\<close>

record world =
  sent :: "mutation list"
  printed :: "string list"

type_synonym board = "mutation list \<Rightarrow> mutation \<Rightarrow> py_error option"

text \<open>
  \<open>set_pushlist\<close> (lines 225-241): the exception raised, if any, with the item and the
  world after the call.
\<close>

definition set_pushlist ::
  "board \<Rightarrow> PushItem \<Rightarrow> world \<Rightarrow> LIST_OPTION_IDS \<Rightarrow> py_error option \<times> PushItem \<times> world" where
  "set_pushlist g self w listt =
     (let m = UpdateListField (item_id self) listt;
          w1 = w\<lparr>sent := sent w @ [m]\<rparr>
      in case g (sent w) m of
           Some err \<Rightarrow> (Some err, self, w1)
         | None \<Rightarrow>
             (None,
              (case listt of
                 OPT_TO_SANDBOX \<Rightarrow> self\<lparr>push_list := Some TO_SANDBOX\<rparr>
               | OPT_TO_PRODUCTION \<Rightarrow> self\<lparr>push_list := Some TO_PRODUCTION\<rparr>
               | OPT_BLOCKED \<Rightarrow> self\<lparr>push_list := Some PL_BLOCKED\<rparr>),
              w1))"

text \<open>\<open>bump_pushlist\<close> (lines 247-255).\<close>

definition bump_pushlist ::
  "board \<Rightarrow> PushItem \<Rightarrow> world \<Rightarrow> py_error option \<times> PushItem \<times> world" where
  "bump_pushlist g self w =
     (case push_list self of
        None \<Rightarrow> set_pushlist g self w OPT_TO_SANDBOX
      | Some TO_SANDBOX \<Rightarrow> set_pushlist g self w OPT_TO_PRODUCTION
      | Some TO_PRODUCTION \<Rightarrow>
          (None, self,
           w\<lparr>printed := printed w
                @ [''No push list beyond to_production. Keeping item in to_production'']\<rparr>)
      | Some PL_BLOCKED \<Rightarrow> (Some ValueError, self, w))"

section \<open>Notions of the specification\<close>

text \<open>The family roots named in \<open>add\<close> (line 300).\<close>

definition FAMILY_ROOTS :: "string list" where
  "FAMILY_ROOTS = [''ofl'', ''ufl'', ''apache'', ''designers'']"

text \<open>
  Written from the words of the specification, not from the source: "the immediate
  child-of-root directory (the family/designer directory itself)", the path up to and
  including the segment that follows the first family root.
\<close>

definition child_of_root_dir :: "path \<Rightarrow> path" where
  "child_of_root_dir p = take (length (takeWhile (\<lambda>s. s \<notin> set FAMILY_ROOTS) p) + 2) p"

text \<open>
  A path that \<open>add\<close> stores as it is: the rules at the head of \<open>add\<close> leave it unchanged
  and it does not consist of one part.
\<close>

definition stable_path :: "env \<Rightarrow> path \<Rightarrow> bool" where
  "stable_path e p = (normalize_path e p = Some p \<and> length p \<noteq> 1)"

text \<open>
  An item that \<open>add\<close> stores, and the path it is stored at: the rules at the head of
  \<open>add\<close> give that path and it does not consist of one part.
\<close>

definition stored_at :: "env \<Rightarrow> PushItem \<Rightarrow> path \<Rightarrow> bool" where
  "stored_at e i p = (normalize_path e (path i) = Some p \<and> length p \<noteq> 1)"

section \<open>Groups of the manifest\<close>

text \<open>
  The members of a category, and its group as the manifest lists it: one member for each
  path (the first one in the registry), in the order of the paths.
\<close>

definition members_of :: "PushCategory \<Rightarrow> PushItem list \<Rightarrow> PushItem list" where
  "members_of c self = filter (\<lambda>i. category i = Some c) self"

definition group_of :: "PushCategory \<Rightarrow> PushItem list \<Rightarrow> PushItem list" where
  "group_of c self = sort_key path (foldl (\<lambda>b i. set_add i b) [] (members_of c self))"

definition group_lines :: "env \<Rightarrow> PushItem list \<Rightarrow> PushCategory \<Rightarrow> string list" where
  "group_lines e self c =
     (if c = BLOCKED \<or> members_of c self = [] then []
      else (''# '' @ value_of c) # map (item_line e) (group_of c self) @ [[]])"

section \<open>Items that the manifest carries faithfully\<close>

text \<open>A string with no white space at either end.\<close>

definition no_outer_space :: "string \<Rightarrow> bool" where
  "no_outer_space s = (s = [] \<or> (\<not> is_space (hd s) \<and> \<not> is_space (last s)))"




text \<open>The logical item of a member: path, category and url.\<close>

definition triple :: "PushItem \<Rightarrow> path \<times> PushCategory option \<times> string" where
  "triple i = (path i, category i, url i)"

text \<open>
  A member as \<open>from_server_file\<close> builds it: status and list are the caller's, \<open>merged\<close>
  and the id are \<open>None\<close>.
\<close>

definition retag :: "PushStatus option \<Rightarrow> PushList option \<Rightarrow> PushItem \<Rightarrow> PushItem" where
  "retag st pl i = mk_item5 (path i) (category i) st (url i) pl"

section \<open>Concrete inputs\<close>

text \<open>
  A file system in which \<open>ofl/notosans/article\<close> and \<open>ofl/notosans/article/images\<close> are
  directories (and nothing else that is asked about is) and every item exists, and one in
  which nothing exists. The path mapping changes nothing in either.
\<close>

definition env_tree :: env where
  "env_tree =
     \<lparr>is_dir = (\<lambda>p. p = [''ofl'', ''notosans'', ''article'']
                    \<or> p = [''ofl'', ''notosans'', ''article'', ''images'']),
      item_exists = (\<lambda>p. True), repo_path_to_google_path = (\<lambda>p. p)\<rparr>"


section \<open>Lines that from_server_file reads\<close>

text \<open>
  A line that the loop of \<open>from_server_file\<close> gets through: once a leading \<open># Deleted\<close>
  has had its \<open># Deleted: \<close> markers removed, the line starts with \<open>#\<close> or has at most
  one \<open>#\<close>.
\<close>

definition readable :: "string \<Rightarrow> bool" where
  "readable line =
     (let line1 = (if startswith line ''# Deleted'' then replace ''# Deleted: '' [] line
                   else line)
      in startswith line1 ''#'' \<or> length (filter (\<lambda>c. c = CHR ''#'') line1) \<le> 1)"

section \<open>Path facts\<close>

lemma Path_ofl_mavenpro: "Path ''ofl/mavenpro'' = [''ofl'', ''mavenpro'']"
  by (simp add: Path_def)

lemma Path_ofl: "Path ''ofl'' = [''ofl'']"
  by (simp add: Path_def)

lemma suffix_of_no_dot: "CHR ''.'' \<notin> set (name p) \<Longrightarrow> suffix_of p = []"
  by (simp add: suffix_of_def rfind_def)

lemma normalize_ofl_mavenpro:
  "normalize_path e [''ofl'', ''mavenpro''] = Some [''ofl'', ''mavenpro'']"
  by (simp add: normalize_path_def any_in_parts_def suffix_of_no_dot name_def
      FAMILY_FILE_SUFFIXES_def)

lemma normalize_ofl: "normalize_path e [''ofl''] = Some [''ofl'']"
  by (simp add: normalize_path_def any_in_parts_def suffix_of_no_dot name_def is_root_def
      FAMILY_FILE_SUFFIXES_def)

section \<open>Claims\<close>

text \<open>
  C2. Adding an item at \<open>ofl/mavenpro\<close> and then one at \<open>ofl\<close> (same category, status and
  url) to an empty registry leaves only the item at \<open>ofl/mavenpro\<close>, and so does adding
  the two in the reverse order: the bare root \<open>ofl\<close> has one part and is never stored.
\<close>

theorem C2_ancestor_pair_order_independent:
  "add e (add e [] (mk_item (Path ''ofl/mavenpro'') c s u)) (mk_item (Path ''ofl'') c s u)
     = [mk_item (Path ''ofl/mavenpro'') c s u]
   \<and> add e (add e [] (mk_item (Path ''ofl'') c s u)) (mk_item (Path ''ofl/mavenpro'') c s u)
     = [mk_item (Path ''ofl/mavenpro'') c s u]"
  by (simp add: add_def mk_item_def Path_ofl Path_ofl_mavenpro normalize_ofl
      normalize_ofl_mavenpro)

lemma Path_metadata: "Path ''ofl/mavenpro/METADATA.pb'' = [''ofl'', ''mavenpro'', ''METADATA.pb'']"
  by (simp add: Path_def)

lemma Path_readme: "Path ''ofl/mavenpro/README.md'' = [''ofl'', ''mavenpro'', ''README.md'']"
  by (simp add: Path_def)

lemma suffix_metadata: "suffix_of [''ofl'', ''mavenpro'', ''METADATA.pb''] = ''.pb''"
  by (simp add: suffix_of_def name_def rfind_def)

lemma suffix_readme: "suffix_of [''ofl'', ''mavenpro'', ''README.md''] = ''.md''"
  by (simp add: suffix_of_def name_def rfind_def)

lemma normalize_metadata:
  "normalize_path e [''ofl'', ''mavenpro'', ''METADATA.pb''] = Some [''ofl'', ''mavenpro'']"
  by (simp add: normalize_path_def any_in_parts_def suffix_metadata FAMILY_FILE_SUFFIXES_def
      parent_def)

lemma normalize_readme:
  "normalize_path e [''ofl'', ''mavenpro'', ''README.md'']
     = Some [''ofl'', ''mavenpro'', ''README.md'']"
  by (simp add: normalize_path_def any_in_parts_def suffix_readme FAMILY_FILE_SUFFIXES_def)

lemma as_posix_ofl: "as_posix [''ofl''] = ''ofl''"
  by (simp add: as_posix_def is_root_def)

lemma as_posix_ofl_mavenpro: "as_posix [''ofl'', ''mavenpro''] = ''ofl/mavenpro''"
  by (simp add: as_posix_def is_root_def)

text \<open>
  C1. After every \<open>add\<close> on a registry grown from the empty one, no two members have the
  same path and no member's path is an ancestor of another member's path. The second
  half fails on the code: a pull request that touches \<open>ofl/mavenpro/METADATA.pb\<close> and
  \<open>ofl/mavenpro/README.md\<close> leaves the members \<open>ofl/mavenpro\<close> and
  \<open>ofl/mavenpro/README.md\<close>, the first an ancestor of the second. The scan that should
  evict tests each member against itself, and \<open>if to_pop:\<close> skips index 0.
\<close>

theorem C1_ancestor_kept:
  "add_all e []
     [mk_item (Path ''ofl/mavenpro/METADATA.pb'') c s u,
      mk_item (Path ''ofl/mavenpro/README.md'') c s u]
   = [mk_item [''ofl'', ''mavenpro''] c s u,
      mk_item [''ofl'', ''mavenpro'', ''README.md''] c s u]
   \<and> strict_prefix [''ofl'', ''mavenpro''] [''ofl'', ''mavenpro'', ''README.md'']"
  by (simp add: add_all_def add_def mk_item_def Path_metadata Path_readme normalize_metadata
      normalize_readme pop_test_def parent_def as_posix_ofl as_posix_ofl_mavenpro)

text \<open>
  C8. \<open>from_server_file\<close> rejects no line. The code raises on a data line with more than
  one \<open>#\<close>: the two-name unpacking of \<open>line.split("#")\<close> is a \<open>ValueError\<close> there, as for
  an item whose url has a fragment.
\<close>

theorem C8_second_hash_raises:
  "from_server_file e ''ofl/noto # https://github.com/google/fonts/pull/1#issuecomment-2'' st pl
     = Inl ValueError"
  by (simp add: from_server_file_def startswith_def Let_def)



text \<open>
  C10. \<open>bump_pushlist\<close> on an item whose \<open>push_list\<close> is \<open>BLOCKED\<close> raises \<open>ValueError\<close>:
  nothing is sent to the board and the item stays as it is.
\<close>

theorem C10_bump_blocked_raises:
  "push_list i = Some PL_BLOCKED \<Longrightarrow> bump_pushlist g i w = (Some ValueError, i, w)"
  by (simp add: bump_pushlist_def)

theorem C10_bump_blocked_raises_witness:
  "bump_pushlist (\<lambda>_ _. None)
      (mk_item5 (Path ''ofl/mavenpro'') (Some NEW) (Some IN_DEV) ''45'' (Some PL_BLOCKED))
      \<lparr>sent = [], printed = []\<rparr>
    = (Some ValueError,
       mk_item5 (Path ''ofl/mavenpro'') (Some NEW) (Some IN_DEV) ''45'' (Some PL_BLOCKED),
       \<lparr>sent = [], printed = []\<rparr>)"
  using C10_bump_blocked_raises [of
      "mk_item5 (Path ''ofl/mavenpro'') (Some NEW) (Some IN_DEV) ''45'' (Some PL_BLOCKED)"
      "\<lambda>_ _. None" "\<lparr>sent = [], printed = []\<rparr>"]
  by (simp add: mk_item5_def)

section \<open>Facts about add\<close>

lemma join_butlast_prefix: "prefix (join sep (butlast xs)) (join sep xs)"
proof (induction sep xs rule: join.induct)
  case (3 sep x y ys)
  then show ?case by (cases ys) auto
qed auto

lemma parent_as_posix_prefix:
  assumes "length q \<noteq> 1"
  shows "prefix (as_posix (parent q)) (as_posix q)"
proof (cases q)
  case Nil
  then show ?thesis by (simp add: parent_def)
next
  case (Cons a q')
  with assms obtain b rest where q: "q = a # b # rest" by (cases q') auto
  have par: "parent q = butlast q" by (simp add: parent_def q)
  have bl: "butlast q = a # butlast (b # rest)" by (simp add: q)
  show ?thesis
  proof (cases "is_root a")
    case True
    have "as_posix (butlast q) = a @ join ''/'' (butlast (b # rest))"
      unfolding bl by (simp add: as_posix_def True)
    moreover have "as_posix q = a @ join ''/'' (b # rest)"
      by (simp add: as_posix_def True q)
    ultimately show ?thesis
      using join_butlast_prefix [of "''/''" "b # rest"] by (simp add: par)
  next
    case False
    have "as_posix (butlast q) = join ''/'' (butlast q)"
      unfolding bl by (simp add: as_posix_def False)
    moreover have "as_posix q = join ''/'' q"
      by (simp add: as_posix_def False q)
    ultimately show ?thesis
      using join_butlast_prefix [of "''/''" q] by (simp add: par)
  qed
qed

lemma pop_test_if_not_single: "length (path i) \<noteq> 1 \<Longrightarrow> pop_test p i"
  by (simp add: pop_test_def parent_as_posix_prefix)

lemma first_index_None_iff: "first_index P xs = None \<longleftrightarrow> (\<forall>x \<in> set xs. \<not> P x)"
  by (induction xs) auto

lemma first_index_SomeD:
  "first_index P xs = Some k \<Longrightarrow> k < length xs \<and> P (xs ! k) \<and> (\<forall>j < k. \<not> P (xs ! j))"
proof (induction xs arbitrary: k)
  case (Cons x xs)
  show ?case
  proof (cases "P x")
    case True
    with Cons.prems show ?thesis by simp
  next
    case False
    with Cons.prems obtain k' where k': "first_index P xs = Some k'" "k = Suc k'" by auto
    from Cons.IH [OF k'(1)] False show ?thesis
      by (auto simp: k'(2) less_Suc_eq_0_disj)
  qed
qed simp

lemma set_pop_subset: "set (pop k xs) \<subseteq> set xs"
  by (auto simp: pop_def dest: in_set_takeD in_set_dropD)

lemma in_set_popD: "x \<in> set (pop k xs) \<Longrightarrow> x \<in> set xs"
  using set_pop_subset by fastforce

lemma map_pop: "map f (pop k xs) = pop k (map f xs)"
  by (simp add: pop_def take_map drop_map)

lemma distinct_pop: "distinct xs \<Longrightarrow> distinct (pop k xs)"
  by (simp add: pop_def set_take_disj_set_drop_if_distinct)

lemma pop_removes_distinct:
  assumes "distinct xs" "k < length xs"
  shows "xs ! k \<notin> set (pop k xs)"
proof -
  have "xs = take k xs @ (xs ! k) # drop (Suc k) xs"
    using assms(2) by (simp add: id_take_nth_drop)
  then have "distinct (take k xs @ (xs ! k) # drop (Suc k) xs)" using assms(1) by simp
  then show ?thesis by (auto simp: pop_def)
qed

lemma add_stable:
  assumes st: "stable_path e (path i)"
    and fresh: "path i \<notin> path ` set r"
    and r: "\<forall>x \<in> set r. length (path x) \<noteq> 1"
  shows "add e r i = r @ [i]"
proof -
  have n: "normalize_path e (path i) = Some (path i)" and l: "length (path i) \<noteq> 1"
    using st by (simp_all add: stable_path_def)
  have ex: "first_index (\<lambda>x. path x = path i) r = None"
    using fresh by (auto simp: first_index_None_iff image_iff)
  have tp: "first_index (pop_test (path i)) r = None \<or> first_index (pop_test (path i)) r = Some 0"
  proof (cases r)
    case (Cons x xs)
    then show ?thesis using r by (simp add: pop_test_if_not_single)
  qed simp
  show ?thesis
    using tp l by (auto simp: add_def n ex)
qed

lemma foldl_add_stable:
  assumes "distinct (map path xs)"
    and "\<forall>x \<in> set xs. stable_path e (path x)"
    and "path ` set r \<inter> path ` set xs = {}"
    and "\<forall>x \<in> set r. length (path x) \<noteq> 1"
  shows "foldl (add e) r xs = r @ xs"
  using assms
proof (induction xs arbitrary: r)
  case (Cons x xs)
  have a: "add e r x = r @ [x]"
    using Cons.prems by (intro add_stable) auto
  have "foldl (add e) (r @ [x]) xs = (r @ [x]) @ xs"
    using Cons.prems by (intro Cons.IH) (auto simp: stable_path_def)
  then show ?case by (simp add: a)
qed simp

lemma add_all_stable:
  assumes "distinct (map path xs)" and "\<forall>x \<in> set xs. stable_path e (path x)"
  shows "add_all e [] xs = xs"
  using foldl_add_stable [of xs e "[]"] assms by (simp add: add_all_def)

lemma add_not_stored: "\<not> (\<exists>p. stored_at e i p) \<Longrightarrow> add e r i = r"
  by (cases "normalize_path e (path i)") (auto simp: add_def stored_at_def)

lemma add_stored:
  assumes "stored_at e i p"
  shows "\<exists>r'. add e r i = r' @ [i\<lparr>path := p\<rparr>] \<and> set r' \<subseteq> set r
          \<and> (distinct (map path r) \<longrightarrow> distinct (map path r') \<and> p \<notin> path ` set r')"
proof -
  from assms have Some: "normalize_path e (path i) = Some p" and False: "length p \<noteq> 1"
    by (simp_all add: stored_at_def)
  define r1 where "r1 = (case first_index (\<lambda>x. path x = p) r of None \<Rightarrow> r | Some k \<Rightarrow> pop k r)"
  define r2 where "r2 = (case first_index (pop_test p) r1 of None \<Rightarrow> r1
                          | Some k \<Rightarrow> if k \<noteq> 0 then pop k r1 else r1)"
  have eq: "add e r i = r2 @ [i\<lparr>path := p\<rparr>]"
    unfolding r2_def r1_def using False by (simp add: add_def Some Let_def)
  have s1: "set r1 \<subseteq> set r"
    by (auto simp: r1_def split: option.splits dest: in_set_popD)
  have s2: "set r2 \<subseteq> set r1"
    by (auto simp: r2_def split: option.splits dest: in_set_popD)
  have d: "distinct (map path r1) \<and> p \<notin> path ` set r1" if dr: "distinct (map path r)"
  proof (cases "first_index (\<lambda>x. path x = p) r")
    case None
    have "r1 = r" by (simp add: r1_def None)
    moreover have "\<forall>x \<in> set r. path x \<noteq> p"
      using None by (simp add: first_index_None_iff)
    ultimately show ?thesis using dr by auto
  next
    case (Some k)
    from first_index_SomeD [OF Some] have k: "k < length r" "path (r ! k) = p" by auto
    have "map path r ! k \<notin> set (pop k (map path r))"
      using dr k(1) by (intro pop_removes_distinct) auto
    then have "p \<notin> path ` set (pop k r)"
      using k by (simp add: map_pop [symmetric])
    moreover have "distinct (map path (pop k r))"
      using dr by (simp add: map_pop distinct_pop)
    ultimately show ?thesis by (simp add: r1_def Some)
  qed
  have d2: "distinct (map path r2) \<and> p \<notin> path ` set r2" if dr: "distinct (map path r)"
  proof -
    from d [OF dr] have "distinct (map path r1)" "p \<notin> path ` set r1" by auto
    then show ?thesis
      using s2 by (auto simp: r2_def map_pop distinct_pop split: option.splits)
  qed
  show ?thesis
    using eq s1 s2 d2 by blast
qed

lemma add_distinct:
  assumes "distinct (map path r)"
  shows "distinct (map path (add e r i))"
proof (cases "\<exists>p. stored_at e i p")
  case True
  then obtain p where "stored_at e i p" ..
  from add_stored [OF this, of r] assms show ?thesis by auto
next
  case False
  then show ?thesis using assms by (simp add: add_not_stored)
qed

lemma add_all_distinct: "distinct (map path r) \<Longrightarrow> distinct (map path (add_all e r xs))"
  unfolding add_all_def by (induction xs arbitrary: r) (auto simp: add_distinct)

lemma later_items_win:
  assumes "distinct (map path A)"
    and "x \<in> set (foldl (add e) A B)"
    and "\<exists>b \<in> set B. stored_at e b (path x)"
  shows "\<exists>b \<in> set B. stored_at e b (path x) \<and> x = b\<lparr>path := path x\<rparr>"
  using assms(2,3)
proof (induction B arbitrary: x rule: rev_induct)
  case Nil
  then show ?case by simp
next
  case (snoc b B)
  let ?R = "foldl (add e) A B"
  have dR: "distinct (map path ?R)"
    using add_all_distinct [OF assms(1), of e B] by (simp add: add_all_def)
  show ?case
  proof (cases "\<exists>p. stored_at e b p")
    case False
    then have "add e ?R b = ?R" by (rule add_not_stored)
    with snoc.prems False have "x \<in> set ?R" "\<exists>b \<in> set B. stored_at e b (path x)" by auto
    from snoc.IH [OF this] show ?thesis by auto
  next
    case True
    then obtain p where p: "stored_at e b p" ..
    from add_stored [OF p, of ?R] dR obtain r' where
      r': "add e ?R b = r' @ [b\<lparr>path := p\<rparr>]" "set r' \<subseteq> set ?R" "p \<notin> path ` set r'"
      by auto
    from snoc.prems(1) r'(1) have "x = b\<lparr>path := p\<rparr> \<or> x \<in> set r'" by auto
    then show ?thesis
    proof
      assume "x = b\<lparr>path := p\<rparr>"
      then show ?thesis using p by auto
    next
      assume xr: "x \<in> set r'"
      then have ne: "path x \<noteq> p" using r'(3) by auto
      have "\<not> stored_at e b (path x)"
        using p ne by (auto simp: stored_at_def)
      with snoc.prems(2) have "\<exists>b \<in> set B. stored_at e b (path x)" by auto
      from snoc.IH [OF _ this] xr r'(2) show ?thesis by auto
    qed
  qed
qed

lemma Path_article_png:
  "Path ''ofl/notosans/article/images/figure.png''
     = [''ofl'', ''notosans'', ''article'', ''images'', ''figure.png'']"
  by (simp add: Path_def)

lemma Path_article: "Path ''ofl/notosans/article'' = [''ofl'', ''notosans'', ''article'']"
  by (simp add: Path_def)

lemma Path_notosans: "Path ''ofl/notosans'' = [''ofl'', ''notosans'']"
  by (simp add: Path_def)

lemma add_article_png:
  "add_all env_tree []
     [mk_item (Path ''ofl/notosans/article/images/figure.png'') c s u]
   = [mk_item (Path ''ofl/notosans/article'') c s u]"
  by (simp add: add_all_def add_def Path_article_png Path_article normalize_path_def
      env_tree_def parent_def mk_item_def)

lemma add_article_again:
  "add env_tree [] (mk_item (Path ''ofl/notosans/article'') c s u)
   = [mk_item (Path ''ofl/notosans'') c s u]"
  by (simp add: add_def Path_article Path_notosans normalize_path_def
      env_tree_def parent_def mk_item_def)

lemma add_all_article_again:
  "add_all env_tree [] [mk_item (Path ''ofl/notosans/article'') c s u]
   = [mk_item (Path ''ofl/notosans'') c s u]"
  by (simp add: add_all_def add_article_again)



lemma stable_a_b: "stable_path e [''a'', ''b'']"
  by (simp add: stable_path_def normalize_path_def any_in_parts_def)



text \<open>
  The union starts from a copy of \<open>A\<close>, whose members are not passed through \<open>add\<close>. With
  \<open>A\<close> holding \<open>ofl/notosans/article\<close> and \<open>B\<close> empty the union is \<open>A\<close>, while replaying
  \<open>A\<close> from the empty registry gives \<open>ofl/notosans\<close>.
\<close>

theorem C4_copy_not_replayed_counterexample:
  "add_all env_tree []
     [mk_item (Path ''ofl/notosans/article/images/figure.png'') (Some NEW) (Some IN_DEV) ''1'']
     = [mk_item (Path ''ofl/notosans/article'') (Some NEW) (Some IN_DEV) ''1'']
   \<and> dunder_add env_tree
       [mk_item (Path ''ofl/notosans/article'') (Some NEW) (Some IN_DEV) ''1''] []
     = [mk_item (Path ''ofl/notosans/article'') (Some NEW) (Some IN_DEV) ''1'']
   \<and> add_all env_tree []
       ([mk_item (Path ''ofl/notosans/article'') (Some NEW) (Some IN_DEV) ''1''] @ [])
     = [mk_item (Path ''ofl/notosans'') (Some NEW) (Some IN_DEV) ''1'']
   \<and> dunder_add env_tree
       [mk_item (Path ''ofl/notosans/article'') (Some NEW) (Some IN_DEV) ''1''] []
     \<noteq> add_all env_tree []
         ([mk_item (Path ''ofl/notosans/article'') (Some NEW) (Some IN_DEV) ''1''] @ [])"
  by (simp add: add_article_png dunder_add_def add_all_article_again)
    (simp add: mk_item_def Path_article Path_notosans)

text \<open>
  C4, amended. \<open>__add__\<close> returns a copy of \<open>A\<close> with every member of \<open>B\<close> then passed
  through \<open>add\<close>, in order. When the members of \<open>A\<close> have pairwise different paths that
  \<open>add\<close> stores as they are, this is the registry obtained from the empty one by
  replaying \<open>A\<close> and then \<open>B\<close>. Members of \<open>B\<close> win conflicts: when the paths of \<open>A\<close> are
  pairwise different, a member of the union at a path where some member of \<open>B\<close> is stored
  is a member of \<open>B\<close> (with its path normalised).
\<close>

theorem C4_union_appends_replayed_other:
  "dunder_add e A B = add_all e A B
   \<and> (distinct (map path A) \<and> (\<forall>i \<in> set A. stable_path e (path i))
        \<longrightarrow> dunder_add e A B = add_all e [] (A @ B))
   \<and> (distinct (map path A) \<longrightarrow>
        (\<forall>x \<in> set (dunder_add e A B).
           (\<exists>b \<in> set B. stored_at e b (path x))
           \<longrightarrow> (\<exists>b \<in> set B. stored_at e b (path x) \<and> x = b\<lparr>path := path x\<rparr>)))"
proof (intro conjI impI ballI)
  show "dunder_add e A B = add_all e A B"
    by (simp add: dunder_add_def add_all_def)
next
  assume "distinct (map path A) \<and> (\<forall>i \<in> set A. stable_path e (path i))"
  then have "add_all e [] A = A" by (intro add_all_stable) auto
  then show "dunder_add e A B = add_all e [] (A @ B)"
    by (simp add: dunder_add_def add_all_def)
next
  fix x
  assume "distinct (map path A)" "x \<in> set (dunder_add e A B)"
    "\<exists>b \<in> set B. stored_at e b (path x)"
  then show "\<exists>b \<in> set B. stored_at e b (path x) \<and> x = b\<lparr>path := path x\<rparr>"
    using later_items_win [of A x e B] by (simp add: dunder_add_def)
qed

theorem C4_union_appends_replayed_other_witness:
  "dunder_add env_tree
     [mk_item [''a'', ''b''] (Some UPGRADE) (Some IN_DEV) ''45'']
     [mk_item [''a'', ''b''] (Some NEW) (Some IN_DEV) ''46'',
      mk_item [''a'', ''c''] (Some NEW) (Some IN_DEV) ''47'']
   = add_all env_tree []
       ([mk_item [''a'', ''b''] (Some UPGRADE) (Some IN_DEV) ''45'']
        @ [mk_item [''a'', ''b''] (Some NEW) (Some IN_DEV) ''46'',
           mk_item [''a'', ''c''] (Some NEW) (Some IN_DEV) ''47''])
   \<and> distinct (map path [mk_item [''a'', ''b''] (Some UPGRADE) (Some IN_DEV) ''45''])
   \<and> stable_path env_tree [''a'', ''b'']"
proof -
  let ?A = "[mk_item [''a'', ''b''] (Some UPGRADE) (Some IN_DEV) ''45'']"
  let ?B = "[mk_item [''a'', ''b''] (Some NEW) (Some IN_DEV) ''46'',
             mk_item [''a'', ''c''] (Some NEW) (Some IN_DEV) ''47'']"
  have h: "distinct (map path ?A) \<and> (\<forall>i \<in> set ?A. stable_path env_tree (path i))"
    by (simp add: mk_item_def stable_a_b)
  with C4_union_appends_replayed_other [of env_tree ?A ?B]
  have "dunder_add env_tree ?A ?B = add_all env_tree [] (?A @ ?B)"
    by blast
  with h show ?thesis by (simp add: stable_a_b)
qed

lemma Path_nested_ttf:
  "Path ''ofl/mavenpro/fonts/MavenPro-Regular.ttf''
     = [''ofl'', ''mavenpro'', ''fonts'', ''MavenPro-Regular.ttf'']"
  by (simp add: Path_def)

lemma suffix_nested_ttf:
  "suffix_of [''ofl'', ''mavenpro'', ''fonts'', ''MavenPro-Regular.ttf''] = ''.ttf''"
  by (simp add: suffix_of_def name_def rfind_def)

lemma normalize_family_file:
  assumes "''article'' \<notin> set p" "''static'' \<notin> set p" "any_in_parts FAMILY_ROOTS p"
    "suffix_of p \<in> FAMILY_FILE_SUFFIXES"
  shows "normalize_path e p = Some (parent p)"
  using assms by (simp add: normalize_path_def FAMILY_ROOTS_def)

text \<open>
  The rule for family files takes the parent directory, which for a file deeper in the
  family directory is not the child of the root: \<open>ofl/mavenpro/fonts/MavenPro-Regular.ttf\<close>
  becomes \<open>ofl/mavenpro/fonts\<close>, not \<open>ofl/mavenpro\<close>.
\<close>

theorem C7_nested_file_counterexample:
  "\<not> (\<forall>e p. ''article'' \<notin> set p \<and> ''static'' \<notin> set p \<and> any_in_parts FAMILY_ROOTS p
          \<and> suffix_of p \<in> FAMILY_FILE_SUFFIXES
        \<longrightarrow> normalize_path e p = Some (child_of_root_dir p))"
proof
  assume a: "\<forall>e p. ''article'' \<notin> set p \<and> ''static'' \<notin> set p \<and> any_in_parts FAMILY_ROOTS p
          \<and> suffix_of p \<in> FAMILY_FILE_SUFFIXES
        \<longrightarrow> normalize_path e p = Some (child_of_root_dir p)"
  let ?p = "Path ''ofl/mavenpro/fonts/MavenPro-Regular.ttf''"
  have h: "''article'' \<notin> set ?p" "''static'' \<notin> set ?p" "any_in_parts FAMILY_ROOTS ?p"
    "suffix_of ?p \<in> FAMILY_FILE_SUFFIXES"
    by (simp_all add: Path_nested_ttf suffix_nested_ttf any_in_parts_def FAMILY_ROOTS_def
        FAMILY_FILE_SUFFIXES_def)
  have "normalize_path env_tree ?p = Some [''ofl'', ''mavenpro'', ''fonts'']"
    using normalize_family_file [OF h] by (simp add: Path_nested_ttf parent_def)
  moreover have "child_of_root_dir ?p = [''ofl'', ''mavenpro'']"
    by (simp add: Path_nested_ttf child_of_root_dir_def FAMILY_ROOTS_def)
  moreover have "normalize_path env_tree ?p = Some (child_of_root_dir ?p)"
    using a h by blast
  ultimately show False by simp
qed

lemma Path_mavenpro_wght:
  "Path ''ofl/mavenpro/MavenPro[wght].ttf'' = [''ofl'', ''mavenpro'', ''MavenPro[wght].ttf'']"
  by (simp add: Path_def)

lemma Path_mavenpro_italic:
  "Path ''ofl/mavenpro/MavenPro-Italic[wght].ttf''
     = [''ofl'', ''mavenpro'', ''MavenPro-Italic[wght].ttf'']"
  by (simp add: Path_def)

lemma suffix_mavenpro_wght:
  "suffix_of [''ofl'', ''mavenpro'', ''MavenPro[wght].ttf''] = ''.ttf''"
  by (simp add: suffix_of_def name_def rfind_def)

lemma suffix_mavenpro_italic:
  "suffix_of [''ofl'', ''mavenpro'', ''MavenPro-Italic[wght].ttf''] = ''.ttf''"
  by (simp add: suffix_of_def name_def rfind_def)

lemma normalize_mavenpro_wght:
  "normalize_path e [''ofl'', ''mavenpro'', ''MavenPro[wght].ttf''] = Some [''ofl'', ''mavenpro'']"
  by (simp add: normalize_path_def any_in_parts_def suffix_mavenpro_wght
      FAMILY_FILE_SUFFIXES_def parent_def)

lemma normalize_mavenpro_italic:
  "normalize_path e [''ofl'', ''mavenpro'', ''MavenPro-Italic[wght].ttf'']
     = Some [''ofl'', ''mavenpro'']"
  by (simp add: normalize_path_def any_in_parts_def suffix_mavenpro_italic
      FAMILY_FILE_SUFFIXES_def parent_def)

lemma add_mavenpro_fonts:
  "add_all e []
     [mk_item (Path ''ofl/mavenpro/MavenPro[wght].ttf'') c s u,
      mk_item (Path ''ofl/mavenpro/MavenPro-Italic[wght].ttf'') c s u]
   = [mk_item (Path ''ofl/mavenpro'') c s u]"
  by (simp add: add_all_def add_def mk_item_def Path_mavenpro_wght Path_mavenpro_italic
      Path_ofl_mavenpro normalize_mavenpro_wght normalize_mavenpro_italic pop_def)

lemma parent_is_child_of_root_dir:
  assumes "\<forall>s \<in> set pre. s \<notin> set FAMILY_ROOTS" "r \<in> set FAMILY_ROOTS"
  shows "parent (pre @ [r, f, n]) = child_of_root_dir (pre @ [r, f, n])"
proof -
  have "takeWhile (\<lambda>s. s \<notin> set FAMILY_ROOTS) (pre @ [r, f, n]) = pre"
    using assms by (simp add: takeWhile_append2)
  then have "child_of_root_dir (pre @ [r, f, n]) = pre @ [r, f]"
    by (simp add: child_of_root_dir_def)
  moreover have "parent (pre @ [r, f, n]) = pre @ [r, f]"
    by (cases pre; cases "tl pre") (auto simp: parent_def butlast_append)
  ultimately show ?thesis by simp
qed

text \<open>
  C7, amended. For a path with no \<open>article\<close> or \<open>static\<close> segment, with a segment among
  \<open>ofl\<close>, \<open>ufl\<close>, \<open>apache\<close>, \<open>designers\<close> and with a suffix among the family file suffixes,
  \<open>add\<close> replaces the path by its parent directory. That is the child-of-root directory
  when the file lies directly in it (the family root is the third segment from the end,
  and the first family root of the path). Adding \<open>ofl/mavenpro/MavenPro[wght].ttf\<close> and
  \<open>ofl/mavenpro/MavenPro-Italic[wght].ttf\<close> with the same category, status and url leaves
  one item at \<open>ofl/mavenpro\<close>.
\<close>

theorem C7_family_file_to_parent:
  "(''article'' \<notin> set p \<and> ''static'' \<notin> set p \<and> any_in_parts FAMILY_ROOTS p
      \<and> suffix_of p \<in> FAMILY_FILE_SUFFIXES
     \<longrightarrow> normalize_path e p = Some (parent p))
   \<and> ((\<forall>s \<in> set pre. s \<notin> set FAMILY_ROOTS) \<and> r \<in> set FAMILY_ROOTS
     \<longrightarrow> parent (pre @ [r, f, n]) = child_of_root_dir (pre @ [r, f, n]))
   \<and> add_all e []
       [mk_item (Path ''ofl/mavenpro/MavenPro[wght].ttf'') c s u,
        mk_item (Path ''ofl/mavenpro/MavenPro-Italic[wght].ttf'') c s u]
     = [mk_item (Path ''ofl/mavenpro'') c s u]"
  using normalize_family_file [of p e] parent_is_child_of_root_dir [of pre r f n]
    add_mavenpro_fonts [of e c s u]
  by blast

theorem C7_family_file_to_parent_witness:
  "normalize_path env_tree (Path ''ofl/mavenpro/MavenPro[wght].ttf'')
     = Some (Path ''ofl/mavenpro'')
   \<and> child_of_root_dir ([] @ [''ofl'', ''mavenpro'', ''MavenPro[wght].ttf''])
     = Path ''ofl/mavenpro''
   \<and> suffix_of (Path ''ofl/mavenpro/MavenPro[wght].ttf'') \<in> FAMILY_FILE_SUFFIXES
   \<and> any_in_parts FAMILY_ROOTS (Path ''ofl/mavenpro/MavenPro[wght].ttf'')"
  using C7_family_file_to_parent [of "Path ''ofl/mavenpro/MavenPro[wght].ttf''" env_tree
      "[]" "''ofl''" "''mavenpro''" "''MavenPro[wght].ttf''" None None "[]"]
  by (simp add: Path_mavenpro_wght Path_ofl_mavenpro suffix_mavenpro_wght any_in_parts_def
      FAMILY_ROOTS_def FAMILY_FILE_SUFFIXES_def parent_def)

section \<open>Facts about to_server_file\<close>

lemma inj_value_of: "value_of c = value_of d \<longleftrightarrow> c = d"
  by (cases c; cases d) simp_all

lemma fill_bins_char:
  assumes "\<forall>i \<in> set items. category i \<noteq> None"
  shows "\<exists>bins'. fill_bins bins items = Inr bins'
     \<and> (\<forall>c. bins' (value_of c) =
          (if c = BLOCKED \<or> members_of c items = [] then bins (value_of c)
           else Some (foldl (\<lambda>b i. set_add i b)
                  (case bins (value_of c) of None \<Rightarrow> [] | Some b \<Rightarrow> b) (members_of c items))))"
  using assms
proof (induction items arbitrary: bins)
  case Nil
  then show ?case by (simp add: members_of_def)
next
  case (Cons item items)
  from Cons.prems obtain c0 where c0: "category item = Some c0" by auto
  show ?case
  proof (cases "c0 = BLOCKED")
    case True
    have tl: "\<forall>i \<in> set items. category i \<noteq> None" using Cons.prems by simp
    from Cons.IH [OF tl, of bins] obtain bins' where
      b: "fill_bins bins items = Inr bins'"
        "\<forall>c. bins' (value_of c) =
          (if c = BLOCKED \<or> members_of c items = [] then bins (value_of c)
           else Some (foldl (\<lambda>b i. set_add i b)
                  (case bins (value_of c) of None \<Rightarrow> [] | Some b \<Rightarrow> b) (members_of c items)))"
      by blast
    have m: "\<And>c. c \<noteq> BLOCKED \<Longrightarrow> members_of c (item # items) = members_of c items"
      using True c0 by (auto simp: members_of_def)
    show ?thesis
      using b m by (auto simp: c0 True)
  next
    case False
    let ?b0 = "case bins (value_of c0) of None \<Rightarrow> [] | Some b \<Rightarrow> b"
    let ?bins1 = "bins(value_of c0 \<mapsto> set_add item ?b0)"
    have tl: "\<forall>i \<in> set items. category i \<noteq> None" using Cons.prems by simp
    from Cons.IH [OF tl, of ?bins1] obtain bins' where
      b: "fill_bins ?bins1 items = Inr bins'"
        "\<forall>c. bins' (value_of c) =
          (if c = BLOCKED \<or> members_of c items = [] then ?bins1 (value_of c)
           else Some (foldl (\<lambda>b i. set_add i b)
                  (case ?bins1 (value_of c) of None \<Rightarrow> [] | Some b \<Rightarrow> b) (members_of c items)))"
      by blast
    have f: "fill_bins bins (item # items) = Inr bins'"
      using b(1) False by (simp add: c0)
    have m0: "members_of c0 (item # items) = item # members_of c0 items"
      by (simp add: members_of_def c0)
    have m: "\<And>c. c \<noteq> c0 \<Longrightarrow> members_of c (item # items) = members_of c items"
      by (auto simp: members_of_def c0)
    have "bins' (value_of c) =
          (if c = BLOCKED \<or> members_of c (item # items) = [] then bins (value_of c)
           else Some (foldl (\<lambda>b i. set_add i b)
                  (case bins (value_of c) of None \<Rightarrow> [] | Some b \<Rightarrow> b)
                  (members_of c (item # items))))" for c
    proof (cases "c = c0")
      case True
      then show ?thesis using b(2) False by (simp add: m0)
    next
      case ne: False
      then show ?thesis using b(2) by (simp add: m inj_value_of)
    qed
    with f show ?thesis by blast
  qed
qed

lemma fill_bins_None:
  assumes "\<exists>i \<in> set items. category i = None"
  shows "fill_bins bins items = Inl AttributeError"
  using assms
proof (induction items arbitrary: bins)
  case (Cons item items)
  then show ?case by (cases "category item") auto
qed simp

lemma foldl_set_add_props:
  assumes "distinct (map path b)"
  shows "distinct (map path (foldl (\<lambda>b i. set_add i b) b xs))
     \<and> set (foldl (\<lambda>b i. set_add i b) b xs) \<subseteq> set b \<union> set xs
     \<and> path ` set (foldl (\<lambda>b i. set_add i b) b xs) = path ` (set b \<union> set xs)"
  using assms
proof (induction xs arbitrary: b)
  case (Cons x xs)
  have d: "distinct (map path (set_add x b))"
    using Cons.prems by (auto simp: set_add_def)
  have s: "set (set_add x b) \<subseteq> set b \<union> {x}"
    by (auto simp: set_add_def)
  have p: "path ` set (set_add x b) = path ` (set b \<union> {x})"
    by (auto simp: set_add_def image_iff) metis
  from Cons.IH [OF d] s p show ?case by (simp add: image_Un) blast
qed simp

lemma group_of_props:
  "sorted (map path (group_of c self)) \<and> distinct (map path (group_of c self))
   \<and> set (group_of c self) \<subseteq> set (members_of c self)
   \<and> path ` set (group_of c self) = path ` set (members_of c self)"
proof -
  let ?b = "foldl (\<lambda>b i. set_add i b) [] (members_of c self)"
  from foldl_set_add_props [of "[]" "members_of c self"]
  have b: "distinct (map path ?b)" "set ?b \<subseteq> set (members_of c self)"
    "path ` set ?b = path ` set (members_of c self)" by auto
  have "distinct (map path (sort_key path ?b))"
    using b(1) by (simp add: distinct_map)
  then show ?thesis
    using b by (simp add: group_of_def sorted_sort_key)
qed

lemma to_server_file_groups:
  assumes "\<forall>i \<in> set self. category i \<noteq> None"
  shows "to_server_file e self
     = Inr (join ''\<newline>'' (concat (map (group_lines e self) PushCategory_all)))"
proof -
  from fill_bins_char [OF assms, of Map.empty] obtain bins' where
    b: "fill_bins Map.empty self = Inr bins'"
      "\<forall>c. bins' (value_of c) =
          (if c = BLOCKED \<or> members_of c self = [] then None
           else Some (foldl (\<lambda>b i. set_add i b) [] (members_of c self)))"
    by auto
  have "tag_lines e bins' (value_of c) = group_lines e self c" for c
    using b(2) by (simp add: tag_lines_def group_lines_def group_of_def)
  then have "map (tag_lines e bins') PushCategory_values = map (group_lines e self) PushCategory_all"
    by (simp add: PushCategory_values_def)
  then show ?thesis by (simp add: to_server_file_def b(1))
qed

lemma to_server_file_example:
  assumes "item_exists e [''a'', ''b'']" "item_exists e [''a'', ''c'']"
  shows "to_server_file e
     [mk_item [''a'', ''b''] (Some UPGRADE) st1 ''45'', mk_item [''a'', ''c''] (Some NEW) st2 ''46'']
   = Inr ''# New\<newline>a/c # 46\<newline>\<newline># Upgrade\<newline>a/b # 45\<newline>''"
  using assms
  by (simp add: to_server_file_def mk_item_def set_add_def tag_lines_def PushCategory_values_def
      PushCategory_all_def item_line_def as_posix_def is_root_def)

lemma Path_a_b: "Path ''a/b'' = [''a'', ''b'']"
  by (simp add: Path_def)

lemma Path_a_c: "Path ''a/c'' = [''a'', ''c'']"
  by (simp add: Path_def)

lemma to_server_file_example_rev:
  assumes "item_exists e [''a'', ''b'']" "item_exists e [''a'', ''c'']"
  shows "to_server_file e
     [mk_item [''a'', ''c''] (Some NEW) st2 ''46'', mk_item [''a'', ''b''] (Some UPGRADE) st1 ''45'']
   = Inr ''# New\<newline>a/c # 46\<newline>\<newline># Upgrade\<newline>a/b # 45\<newline>''"
  using assms
  by (simp add: to_server_file_def mk_item_def set_add_def tag_lines_def PushCategory_values_def
      PushCategory_all_def item_line_def as_posix_def is_root_def)

text \<open>
  C6. For a registry whose items all have a category, \<open>to_server_file\<close> writes, for each
  category in the order of declaration, the header \<open># \<close> and the category's value, the
  lines of the category's members and an empty line; a category with no member and the
  category \<open>BLOCKED\<close> give nothing. The members of a group are listed in the order of
  their paths, each path once. A registry with a \<open>NEW\<close> item at \<open>a/c\<close> (url 46) and an
  \<open>UPGRADE\<close> item at \<open>a/b\<close> (url 45), both existing on disk, is written as the text of the
  claim, in either order of the two items.
\<close>

theorem C6_to_server_file_groups:
  "((\<forall>i \<in> set self. category i \<noteq> None) \<longrightarrow>
      to_server_file e self
        = Inr (join ''\<newline>'' (concat (map (group_lines e self) PushCategory_all))))
   \<and> PushCategory_all
       = [NEW, UPGRADE, OTHER, DESIGNER_PROFILE, AXIS_REGISTRY, KNOWLEDGE, METADATA,
          SAMPLE_TEXTS, BLOCKED, DELETED]
   \<and> group_lines e self BLOCKED = []
   \<and> (members_of c self = [] \<longrightarrow> group_lines e self c = [])
   \<and> (c \<noteq> BLOCKED \<and> members_of c self \<noteq> [] \<longrightarrow>
        group_lines e self c
          = (''# '' @ value_of c) # map (item_line e) (group_of c self) @ [[]])
   \<and> sorted (map path (group_of c self)) \<and> distinct (map path (group_of c self))
   \<and> set (group_of c self) \<subseteq> set (members_of c self)
   \<and> path ` set (group_of c self) = path ` set (members_of c self)
   \<and> (item_exists e (Path ''a/b'') \<and> item_exists e (Path ''a/c'') \<longrightarrow>
        to_server_file e
          [mk_item (Path ''a/c'') (Some NEW) st1 ''46'',
           mk_item (Path ''a/b'') (Some UPGRADE) st2 ''45'']
          = Inr ''# New\<newline>a/c # 46\<newline>\<newline># Upgrade\<newline>a/b # 45\<newline>''
        \<and> to_server_file e
          [mk_item (Path ''a/b'') (Some UPGRADE) st2 ''45'',
           mk_item (Path ''a/c'') (Some NEW) st1 ''46'']
          = Inr ''# New\<newline>a/c # 46\<newline>\<newline># Upgrade\<newline>a/b # 45\<newline>'')"
  using to_server_file_groups [of self e] group_of_props [of c self]
    to_server_file_example [of e st2 st1] to_server_file_example_rev [of e st1 st2]
  by (simp add: group_lines_def PushCategory_all_def Path_a_b Path_a_c)

theorem C6_to_server_file_groups_witness:
  "to_server_file env_tree
     [mk_item (Path ''a/b'') (Some UPGRADE) (Some IN_DEV) ''45'',
      mk_item (Path ''a/c'') (Some NEW) (Some IN_DEV) ''46'']
     = Inr ''# New\<newline>a/c # 46\<newline>\<newline># Upgrade\<newline>a/b # 45\<newline>''
   \<and> item_exists env_tree (Path ''a/b'') \<and> item_exists env_tree (Path ''a/c'')"
  using C6_to_server_file_groups [of "[]" env_tree NEW "Some IN_DEV" "Some IN_DEV"]
  by (simp add: env_tree_def)

section \<open>Facts about the round trip\<close>




lemma dropWhile_no_outer_space:
  "no_outer_space s \<Longrightarrow> dropWhile is_space s = s"
  by (cases s) (auto simp: no_outer_space_def)

lemma no_outer_space_rev: "no_outer_space s \<Longrightarrow> no_outer_space (rev s)"
  unfolding no_outer_space_def by (auto simp: hd_rev last_rev)


lemma strip_plain: "no_outer_space s \<Longrightarrow> strip s = s"
  by (simp add: strip_def dropWhile_no_outer_space no_outer_space_rev)























lemma retag_fields [simp]:
  "path (retag st pl i) = path i" "category (retag st pl i) = category i"
  "url (retag st pl i) = url i" "status (retag st pl i) = st" "push_list (retag st pl i) = pl"
  by (simp_all add: retag_def mk_item5_def)

lemma triple_retag [simp]: "triple (retag st pl i) = triple i"
  by (simp add: triple_def)

lemma item_line_retag [simp]: "item_line e (retag st pl i) = item_line e i"
  by (simp add: item_line_def)
























section \<open>When from_server_file raises\<close>

lemma length_split_on: "length (split_on c s) = Suc (length (filter (\<lambda>x. x = c) s))"
  by (induction s) (auto split: list.splits)

lemma read_lines_step:
  fixes line :: string
  defines "line1 \<equiv>
     (if startswith line ''# Deleted'' then replace ''# Deleted: '' [] line else line)"
  shows "(readable line \<longrightarrow>
        (\<exists>cat' d' res'. read_lines e st pl (line # lines) cat d res
           = read_lines e st pl lines cat' d' res'))
      \<and> (\<not> readable line \<longrightarrow> read_lines e st pl (line # lines) cat d res = Inl ValueError)"
proof -
  have len: "length (split_on CHR ''#'' line1) = Suc (length (filter (\<lambda>c. c = CHR ''#'') line1))"
    by (rule length_split_on)
  show ?thesis
  proof (cases "line = []")
    case True
    then have "readable line" by (simp add: readable_def startswith_def)
    moreover have "read_lines e st pl (line # lines) cat d res
        = read_lines e st pl lines cat d res"
      using True by simp
    ultimately show ?thesis by blast
  next
    case ne: False
    show ?thesis
    proof (cases "startswith line1 ''#''")
      case True
      then have "readable line" by (simp add: readable_def line1_def Let_def)
      moreover have "read_lines e st pl (line # lines) cat d res
          = read_lines e st pl lines (from_string (strip (drop 1 line1))) False res"
        using ne True unfolding line1_def by (simp add: Let_def)
      ultimately show ?thesis by blast
    next
      case nh: False
      show ?thesis
      proof (cases "CHR ''#'' \<in> set line1")
        case False
        then have "filter (\<lambda>c. c = CHR ''#'') line1 = []"
          by (auto simp: filter_empty_conv)
        then have "readable line" by (simp add: readable_def line1_def Let_def)
        moreover have "\<exists>res'. read_lines e st pl (line # lines) cat d res
            = read_lines e st pl lines cat False res'"
          using ne nh False unfolding line1_def by (auto simp: Let_def)
        ultimately show ?thesis by blast
      next
        case True
        then have pos: "0 < length (filter (\<lambda>c. c = CHR ''#'') line1)"
          by (simp add: filter_empty_conv)
        show ?thesis
        proof (cases "length (filter (\<lambda>c. c = CHR ''#'') line1) = 1")
          case one: True
          then have r: "readable line" by (simp add: readable_def line1_def Let_def)
          from one len have "length (split_on CHR ''#'' line1) = 2" by simp
          then obtain p u where pu: "split_on CHR ''#'' line1 = [p, u]"
            by (auto simp: length_Suc_conv numeral_2_eq_2)
          have "\<exists>res'. read_lines e st pl (line # lines) cat d res
              = read_lines e st pl lines cat False res'"
            using ne nh True pu unfolding line1_def by (auto simp: Let_def)
          with r show ?thesis by blast
        next
          case False
          with pos have two: "2 \<le> length (filter (\<lambda>c. c = CHR ''#'') line1)" by linarith
          then have nr: "\<not> readable line"
            using nh by (simp add: readable_def line1_def Let_def)
          from two len have "3 \<le> length (split_on CHR ''#'' line1)" by simp
          then obtain a b c rest where "split_on CHR ''#'' line1 = a # b # c # rest"
            by (auto simp: Suc_le_length_iff numeral_3_eq_3)
          then have "read_lines e st pl (line # lines) cat d res = Inl ValueError"
            using ne nh True unfolding line1_def by (simp add: Let_def)
          with nr show ?thesis by blast
        qed
      qed
    qed
  qed
qed

lemma read_lines_readable:
  "\<forall>l \<in> set lines. readable l \<Longrightarrow> \<exists>r. read_lines e st pl lines cat d res = Inr r"
proof (induction lines arbitrary: cat d res)
  case (Cons line lines)
  then have r: "readable line" and rs: "\<forall>l \<in> set lines. readable l" by auto
  from read_lines_step [of line e st pl lines cat d res] r
  obtain cat' d' res' where
    "read_lines e st pl (line # lines) cat d res = read_lines e st pl lines cat' d' res'"
    by blast
  moreover from Cons.IH [OF rs, of cat' d' res']
  have "\<exists>r. read_lines e st pl lines cat' d' res' = Inr r" .
  ultimately show ?case by (simp del: read_lines.simps)
qed simp

lemma read_lines_unreadable:
  "\<not> (\<forall>l \<in> set lines. readable l) \<Longrightarrow> read_lines e st pl lines cat d res = Inl ValueError"
proof (induction lines arbitrary: cat d res)
  case (Cons line lines)
  show ?case
  proof (cases "readable line")
    case True
    with Cons.prems have rs: "\<not> (\<forall>l \<in> set lines. readable l)" by auto
    from read_lines_step [of line e st pl lines cat d res] True
    obtain cat' d' res' where
      "read_lines e st pl (line # lines) cat d res = read_lines e st pl lines cat' d' res'"
      by blast
    moreover from Cons.IH [OF rs, of cat' d' res']
    have "read_lines e st pl lines cat' d' res' = Inl ValueError" .
    ultimately show ?thesis by (simp del: read_lines.simps)
  next
    case False
    with read_lines_step [of line e st pl lines cat d res] show ?thesis by blast
  qed
qed simp

lemma from_server_file_raises_iff:
  "from_server_file e doc st pl = Inl ValueError
     \<longleftrightarrow> (\<exists>l \<in> set (split_on CHR ''\<newline>'' doc). \<not> readable l)"
proof (cases "\<forall>l \<in> set (split_on CHR ''\<newline>'' doc). readable l")
  case True
  from read_lines_readable [OF True, of e st pl "Some OTHER" False "[]"] True
  show ?thesis by (auto simp: from_server_file_def)
next
  case False
  from read_lines_unreadable [OF False, of e st pl "Some OTHER" False "[]"] False
  show ?thesis by (auto simp: from_server_file_def)
qed

end
